theory Spec2Isabelle
  imports Main "HOL-Library.Char_ord"
begin

section \<open>Strings and characters of the source language\<close>

text \<open>
  The module under verification is \<^verbatim>\<open>heuristics.py\<close>: ten string heuristics applied in
  sequence to a query (class \<^verbatim>\<open>QueryHeuristics\<close>), and two checks of tool output and of
  responses (class \<^verbatim>\<open>ResultHeuristics\<close>).

  A Python \<^verbatim>\<open>str\<close> is modelled as a \<^typ>\<open>string\<close>, one \<^typ>\<open>char\<close> per code point, so the
  embedding covers the strings whose code points are below 256. On this range the
  classes \<^verbatim>\<open>\d\<close>, \<^verbatim>\<open>\w\<close>, \<^verbatim>\<open>\s\<close> of the \<^verbatim>\<open>re\<close> module (which are the Unicode classes for
  a \<^verbatim>\<open>str\<close> pattern), \<^verbatim>\<open>str.lower\<close> and \<^verbatim>\<open>str.strip\<close> are the functions below.
\<close>

text \<open>Characters are ordered by their code points.\<close>

definition between :: "char \<Rightarrow> char \<Rightarrow> char \<Rightarrow> bool" where
  "between lo hi c = (lo \<le> c \<and> c \<le> hi)"

definition is_digit :: "char \<Rightarrow> bool" where
  "is_digit c = between CHR ''0'' CHR ''9'' c"

definition is_upper :: "char \<Rightarrow> bool" where
  "is_upper c = (between CHR ''A'' CHR ''Z'' c \<or> (between CHR 0xC0 CHR 0xDE c \<and> c \<noteq> CHR 0xD7))"

definition is_lower :: "char \<Rightarrow> bool" where
  "is_lower c = (between CHR ''a'' CHR ''z'' c \<or> (between CHR 0xE0 CHR 0xFE c \<and> c \<noteq> CHR 0xF7))"

text \<open>\<^verbatim>\<open>str.isalnum\<close> below 256: the ASCII letters and digits, the Latin-1 letters, the
  superscript digits and the vulgar fractions.\<close>

definition is_alnum :: "char \<Rightarrow> bool" where
  "is_alnum c = (between CHR ''0'' CHR ''9'' c \<or> between CHR ''A'' CHR ''Z'' c \<or> between CHR ''a'' CHR ''z'' c
     \<or> c \<in> set [CHR 0xAA, CHR 0xB2, CHR 0xB3, CHR 0xB5, CHR 0xB9, CHR 0xBA, CHR 0xBC, CHR 0xBD, CHR 0xBE]
     \<or> (between CHR 0xC0 CHR 0xFF c \<and> c \<noteq> CHR 0xD7 \<and> c \<noteq> CHR 0xF7))"

definition is_word :: "char \<Rightarrow> bool" where
  "is_word c = (is_alnum c \<or> c = CHR ''_'')"

text \<open>\<^verbatim>\<open>str.isspace\<close> below 256; \<^verbatim>\<open>\s\<close> and \<^verbatim>\<open>str.strip()\<close> both use it.\<close>

definition is_space :: "char \<Rightarrow> bool" where
  "is_space c = (between CHR 0x09 CHR 0x0D c \<or> between CHR 0x1C CHR 0x20 c \<or> c = CHR 0x85 \<or> c = CHR 0xA0)"

text \<open>\<^verbatim>\<open>str.lower\<close> and \<^verbatim>\<open>str.upper\<close> on one character: the upper-case letters below 256
  are 32 below their lower-case forms, and differ from them in the bit of value 32 only.\<close>

definition lower_char :: "char \<Rightarrow> char" where
  "lower_char c =
     (if is_upper c
      then (case c of Char b0 b1 b2 b3 b4 b5 b6 b7 \<Rightarrow> Char b0 b1 b2 b3 b4 True b6 b7)
      else c)"

definition upper_char :: "char \<Rightarrow> char" where
  "upper_char c =
     (if is_lower c
      then (case c of Char b0 b1 b2 b3 b4 b5 b6 b7 \<Rightarrow> Char b0 b1 b2 b3 b4 False b6 b7)
      else c)"

definition lower :: "string \<Rightarrow> string" where
  "lower s = map lower_char s"

definition strip :: "string \<Rightarrow> string" where
  "strip s = rev (dropWhile is_space (rev (dropWhile is_space s)))"

text \<open>\<^verbatim>\<open>str(n)\<close> for a natural number, as the f-strings and \<^verbatim>\<open>str(current_year)\<close> use it.\<close>

definition digit_char :: "nat \<Rightarrow> char" where
  "digit_char d = char_of (48 + d)"

function str_nat :: "nat \<Rightarrow> string" where
  "str_nat n = (if n < 10 then [digit_char n] else str_nat (n div 10) @ [digit_char (n mod 10)])"
  by pat_completeness auto
termination
  by (relation "measure (\<lambda>n. n)") auto

declare str_nat.simps [simp del]

text \<open>\<^verbatim>\<open>s.zfill(width)\<close>: zeros on the left, after a leading sign.\<close>

definition zfill :: "nat \<Rightarrow> string \<Rightarrow> string" where
  "zfill width s =
     (let pad = replicate (width - length s) CHR ''0'' in
      case s of
        c # cs \<Rightarrow> if c = CHR ''+'' \<or> c = CHR ''-'' then c # pad @ cs else pad @ s
      | [] \<Rightarrow> pad)"

text \<open>\<^verbatim>\<open>s.replace(old, new)\<close> replaces every occurrence of \<open>old\<close>, leftmost first and
  without overlap; an empty \<open>old\<close> matches before every character and at the end.\<close>

fun replace_from :: "string \<Rightarrow> string \<Rightarrow> nat \<Rightarrow> string \<Rightarrow> string" where
  "replace_from old new skip [] = []"
| "replace_from old new skip (c # cs) =
     (if 0 < skip then replace_from old new (skip - 1) cs
      else if take (length old) (c # cs) = old then new @ replace_from old new (length old - 1) cs
      else c # replace_from old new 0 cs)"

definition replace :: "string \<Rightarrow> string \<Rightarrow> string \<Rightarrow> string" where
  "replace s old new =
     (if old = [] then new @ concat (map (\<lambda>c. c # new) s) else replace_from old new 0 s)"

text \<open>\<^verbatim>\<open>s.split(sep)\<close> for a one-character separator.\<close>

fun split_on :: "char \<Rightarrow> string \<Rightarrow> string list" where
  "split_on sep [] = [[]]"
| "split_on sep (c # cs) =
     (case split_on sep cs of
        p # ps \<Rightarrow> if c = sep then [] # p # ps else (c # p) # ps
      | [] \<Rightarrow> [[c]])"

text \<open>\<^verbatim>\<open>sub in s\<close> for strings.\<close>

fun contains :: "string \<Rightarrow> string \<Rightarrow> bool" where
  "contains [] sub = (sub = [])"
| "contains (c # cs) sub = (take (length sub) (c # cs) = sub \<or> contains cs sub)"

section \<open>The regular expressions of the \<^verbatim>\<open>re\<close> module\<close>

text \<open>
  The patterns of the module are written as syntax trees, and matched as \<^verbatim>\<open>re\<close> matches
  them: by backtracking, an alternation trying its left branch first and a (greedy)
  repetition trying one more iteration before it stops. \<open>rmatch\<close> returns every way a
  pattern matches at one position, in the order the backtracking search finds them; the
  match \<^verbatim>\<open>re\<close> reports is the first.
\<close>

datatype citem = CChar char | CRange char char | CDigit | CWord | CSpace

datatype regex =
    Eps
  | Lit char
  | Cls "citem list"
  | Dot
  | WordB
  | Seq regex regex
  | Alt regex regex
  | Rep nat "nat option" regex
  | Grp nat regex

text \<open>The state of a match: the character before the position (for \<^verbatim>\<open>\b\<close>), the text
  from the position on, and the groups captured so far.\<close>

record mstate =
  prev :: "char option"
  rest :: string
  caps :: "(nat \<times> string) list"

text \<open>Under \<^verbatim>\<open>re.IGNORECASE\<close> (the flag \<open>ic\<close>) a literal or a range matches a character
  when it matches one of its case variants.\<close>

fun item_mem :: "bool \<Rightarrow> char \<Rightarrow> citem \<Rightarrow> bool" where
  "item_mem ic x (CChar c) = (if ic then lower_char x = lower_char c else x = c)"
| "item_mem ic x (CRange lo hi) =
     (between lo hi x \<or> (ic \<and> (between lo hi (lower_char x) \<or> between lo hi (upper_char x))))"
| "item_mem ic x CDigit = is_digit x"
| "item_mem ic x CWord = is_word x"
| "item_mem ic x CSpace = is_space x"

definition class_mem :: "bool \<Rightarrow> citem list \<Rightarrow> char \<Rightarrow> bool" where
  "class_mem ic items x = list_ex (item_mem ic x) items"

definition step_char :: "(char \<Rightarrow> bool) \<Rightarrow> mstate \<Rightarrow> mstate list" where
  "step_char p st =
     (case rest st of
        [] \<Rightarrow> []
      | x # xs \<Rightarrow> if p x then [st\<lparr>prev := Some x, rest := xs\<rparr>] else [])"

definition word_opt :: "char option \<Rightarrow> bool" where
  "word_opt c = (case c of None \<Rightarrow> False | Some x \<Rightarrow> is_word x)"

definition next_char :: "mstate \<Rightarrow> char option" where
  "next_char st = (case rest st of [] \<Rightarrow> None | x # _ \<Rightarrow> Some x)"

definition at_boundary :: "mstate \<Rightarrow> bool" where
  "at_boundary st = (word_opt (prev st) \<noteq> word_opt (next_char st))"

definition consumed :: "mstate \<Rightarrow> mstate \<Rightarrow> string" where
  "consumed st st' = take (length (rest st) - length (rest st')) (rest st)"

definition dec_max :: "nat option \<Rightarrow> nat option" where
  "dec_max n = map_option (\<lambda>k. k - 1) n"

fun rsize :: "regex \<Rightarrow> nat" where
  "rsize (Seq r1 r2) = Suc (rsize r1 + rsize r2)"
| "rsize (Alt r1 r2) = Suc (rsize r1 + rsize r2)"
| "rsize (Rep m n r) = Suc (rsize r)"
| "rsize (Grp k r) = Suc (rsize r)"
| "rsize r = 0"

text \<open>In a repetition, an iteration that consumes nothing ends the loop (as in \<^verbatim>\<open>re\<close>).\<close>

function rmatch :: "bool \<Rightarrow> regex \<Rightarrow> mstate \<Rightarrow> mstate list" where
  "rmatch ic Eps st = [st]"
| "rmatch ic (Lit c) st = step_char (\<lambda>x. if ic then lower_char x = lower_char c else x = c) st"
| "rmatch ic (Cls items) st = step_char (class_mem ic items) st"
| "rmatch ic Dot st = step_char (\<lambda>x. x \<noteq> CHR 0x0A) st"
| "rmatch ic WordB st = (if at_boundary st then [st] else [])"
| "rmatch ic (Seq r1 r2) st = concat (map (rmatch ic r2) (rmatch ic r1 st))"
| "rmatch ic (Alt r1 r2) st = rmatch ic r1 st @ rmatch ic r2 st"
| "rmatch ic (Grp k r) st =
     map (\<lambda>st'. st'\<lparr>caps := (k, consumed st st') # caps st'\<rparr>) (rmatch ic r st)"
| "rmatch ic (Rep m n r) st =
     (if n = Some 0 then [st]
      else concat (map (rmatch ic (Rep (m - 1) (dec_max n) r))
                    (filter (\<lambda>st'. length (rest st') < length (rest st)) (rmatch ic r st)))
           @ (if m = 0 then [st] else []))"
  by pat_completeness auto
termination
  by (relation "measures [\<lambda>(ic, r, st). rsize r, \<lambda>(ic, r, st). length (rest st)]") auto

declare rmatch.simps(9) [simp del]

text \<open>Shorthands for the pattern syntax: a sequence, a literal word (what \<^verbatim>\<open>re.escape\<close>
  yields), \<^verbatim>\<open>?\<close>, \<^verbatim>\<open>*\<close>, \<^verbatim>\<open>+\<close>, \<^verbatim>\<open>{m,n}\<close>, \<^verbatim>\<open>{m,}\<close>.\<close>

definition cat :: "regex list \<Rightarrow> regex" where
  "cat rs = foldr Seq rs Eps"

definition lits :: "string \<Rightarrow> regex" where
  "lits w = cat (map Lit w)"

definition Opt :: "regex \<Rightarrow> regex" where
  "Opt r = Rep 0 (Some 1) r"

definition Star :: "regex \<Rightarrow> regex" where
  "Star r = Rep 0 None r"

definition Plus :: "regex \<Rightarrow> regex" where
  "Plus r = Rep 1 None r"

definition Times :: "nat \<Rightarrow> nat \<Rightarrow> regex \<Rightarrow> regex" where
  "Times m n r = Rep m (Some n) r"

definition AtLeast :: "nat \<Rightarrow> regex \<Rightarrow> regex" where
  "AtLeast m r = Rep m None r"

subsection \<open>Searching, substituting and listing matches\<close>

text \<open>A match object: the text before it since the search began, \<^verbatim>\<open>group(0)\<close>, the
  captured groups, and the state after it.\<close>

record rematch =
  before :: string
  whole :: string
  groups :: "(nat \<times> string) list"
  after :: mstate

definition group :: "rematch \<Rightarrow> nat \<Rightarrow> string" where
  "group m k = (case map_of (groups m) k of None \<Rightarrow> [] | Some g \<Rightarrow> g)"

text \<open>The first match at a position; \<open>adv\<close> refuses an empty match there (it is set after
  an empty match, so that a scan moves on).\<close>

definition match_here :: "bool \<Rightarrow> regex \<Rightarrow> bool \<Rightarrow> mstate \<Rightarrow> mstate option" where
  "match_here ic r adv st =
     find (\<lambda>st'. \<not> adv \<or> length (rest st') < length (rest st)) (rmatch ic r st)"

text \<open>The search: the first position, from the left, where the pattern matches.\<close>

fun scan :: "bool \<Rightarrow> regex \<Rightarrow> bool \<Rightarrow> char option \<Rightarrow> string \<Rightarrow> string \<Rightarrow> rematch option" where
  "scan ic r adv p [] skipped =
     (case match_here ic r adv \<lparr>prev = p, rest = [], caps = []\<rparr> of
        Some st' \<Rightarrow> Some \<lparr>before = skipped, whole = [], groups = caps st', after = st'\<rparr>
      | None \<Rightarrow> None)"
| "scan ic r adv p (c # cs) skipped =
     (case match_here ic r adv \<lparr>prev = p, rest = c # cs, caps = []\<rparr> of
        Some st' \<Rightarrow> Some \<lparr>before = skipped,
                          whole = consumed \<lparr>prev = p, rest = c # cs, caps = []\<rparr> st',
                          groups = caps st', after = st'\<rparr>
      | None \<Rightarrow> scan ic r False (Some c) cs (skipped @ [c]))"

definition re_search :: "bool \<Rightarrow> regex \<Rightarrow> string \<Rightarrow> bool" where
  "re_search ic r s = (scan ic r False None s [] \<noteq> None)"

text \<open>Every match leaves a suffix of the text it started from, and the character before
  the new position is the last one consumed.\<close>

definition extends :: "mstate \<Rightarrow> mstate \<Rightarrow> bool" where
  "extends st st' = (\<exists>pre. rest st = pre @ rest st' \<and>
       prev st' = (if pre = [] then prev st else Some (last pre)))"

lemma step_char_sound:
  "st' \<in> set (step_char p st) \<Longrightarrow>
     \<exists>x. rest st = x # rest st' \<and> prev st' = Some x \<and> caps st' = caps st \<and> p x"
  by (auto simp: step_char_def split: list.splits if_splits)

lemma extends_refl: "extends st st"
  by (simp add: extends_def)

lemma extends_trans: "extends a b \<Longrightarrow> extends b c \<Longrightarrow> extends a c"
  unfolding extends_def
  apply (elim exE conjE)
  subgoal for p q
    by (rule exI [of _ "p @ q"]) auto
  done

lemma step_char_extends: "st' \<in> set (step_char p st) \<Longrightarrow> extends st st'"
proof -
  assume "st' \<in> set (step_char p st)"
  then obtain x where "rest st = x # rest st'" "prev st' = Some x"
    by (auto dest!: step_char_sound)
  then have "rest st = [x] @ rest st' \<and> prev st' = (if [x] = [] then prev st else Some (last [x]))"
    by simp
  then show ?thesis unfolding extends_def by blast
qed

lemma rmatch_Rep_unfold:
  "rmatch ic (Rep m n r) st =
     (if n = Some 0 then [st]
      else concat (map (rmatch ic (Rep (m - 1) (dec_max n) r))
                    (filter (\<lambda>st'. length (rest st') < length (rest st)) (rmatch ic r st)))
           @ (if m = 0 then [st] else []))"
  by (subst rmatch.simps(9)) (rule refl)

lemma rmatch_extends: "st' \<in> set (rmatch ic r st) \<Longrightarrow> extends st st'"
proof (induction ic r st arbitrary: st' rule: rmatch.induct)
  case (1 ic st)
  then show ?case by (simp add: extends_refl)
next
  case (2 ic c st)
  then show ?case by (simp add: step_char_extends)
next
  case (3 ic items st)
  then show ?case by (simp add: step_char_extends)
next
  case (4 ic st)
  then show ?case by (simp add: step_char_extends)
next
  case (5 ic st)
  then show ?case by (simp add: extends_refl split: if_splits)
next
  case (6 ic r1 r2 st)
  from 6(3) obtain st1 where a: "st1 \<in> set (rmatch ic r1 st)" and b: "st' \<in> set (rmatch ic r2 st1)"
    by auto
  from 6(1) [OF a] 6(2) [OF a b] show ?case by (rule extends_trans)
next
  case (7 ic r1 r2 st)
  from 7(3) have "st' \<in> set (rmatch ic r1 st) \<or> st' \<in> set (rmatch ic r2 st)" by simp
  with 7(1,2) show ?case by blast
next
  case (8 ic k r st)
  from 8(2) obtain st1 where a: "st1 \<in> set (rmatch ic r st)"
    and b: "st' = st1\<lparr>caps := (k, consumed st st1) # caps st1\<rparr>" by auto
  from 8(1) [OF a] b show ?case by (simp add: extends_def)
next
  case (9 ic m n r st)
  have unf: "st' \<in> set (if n = Some 0 then [st]
      else concat (map (rmatch ic (Rep (m - 1) (dec_max n) r))
                    (filter (\<lambda>st'. length (rest st') < length (rest st)) (rmatch ic r st)))
           @ (if m = 0 then [st] else []))"
    using 9(3) by (subst (asm) rmatch.simps(9))
  show ?case
  proof (cases "n = Some 0")
    case True
    with unf show ?thesis by (simp add: extends_refl)
  next
    case False
    from unf False consider
      (iter) st1 where "st1 \<in> set (rmatch ic r st)" "length (rest st1) < length (rest st)"
        "st' \<in> set (rmatch ic (Rep (m - 1) (dec_max n) r) st1)"
      | (stop) "st' = st"
      by (auto split: if_splits)
    then show ?thesis
    proof cases
      case iter
      from 9(1) [OF False iter(1)] have "extends st st1" .
      moreover from 9(2) [OF False _ iter(3)] iter(1,2) have "extends st1 st'" by simp
      ultimately show ?thesis by (rule extends_trans)
    next
      case stop
      then show ?thesis by (simp add: extends_refl)
    qed
  qed
qed

lemma match_here_Some:
  assumes "match_here ic r adv st = Some st'"
  shows "\<exists>pre. rest st = pre @ rest st' \<and> consumed st st' = pre \<and> (adv \<longrightarrow> pre \<noteq> [])
           \<and> prev st' = (if pre = [] then prev st else Some (last pre))"
proof -
  from assms have mem: "st' \<in> set (rmatch ic r st)"
    and adv: "\<not> adv \<or> length (rest st') < length (rest st)"
    by (auto simp: match_here_def find_Some_iff)
  from rmatch_extends [OF mem] obtain pre where pre: "rest st = pre @ rest st'"
    "prev st' = (if pre = [] then prev st else Some (last pre))"
    by (auto simp: extends_def)
  from pre(1) have "consumed st st' = pre" by (simp add: consumed_def)
  moreover from adv pre(1) have "adv \<longrightarrow> pre \<noteq> []" by auto
  ultimately show ?thesis using pre by blast
qed

lemma scan_Some:
  "scan ic r adv p s skipped = Some m \<Longrightarrow>
     \<exists>pre. s = pre @ whole m @ rest (after m) \<and> before m = skipped @ pre
       \<and> (adv \<and> pre = [] \<longrightarrow> whole m \<noteq> [])"
proof (induction s arbitrary: adv p skipped)
  case Nil
  then obtain st' where st': "match_here ic r adv \<lparr>prev = p, rest = [], caps = []\<rparr> = Some st'"
    and m: "m = \<lparr>before = skipped, whole = [], groups = caps st', after = st'\<rparr>"
    by (auto split: option.splits)
  from match_here_Some [OF st'] m show ?case by auto
next
  case (Cons c cs)
  show ?case
  proof (cases "match_here ic r adv \<lparr>prev = p, rest = c # cs, caps = []\<rparr>")
    case None
    with Cons.prems have "scan ic r False (Some c) cs (skipped @ [c]) = Some m" by simp
    from Cons.IH [OF this] obtain pre where
      "cs = pre @ whole m @ rest (after m)" "before m = (skipped @ [c]) @ pre" by blast
    then have "c # cs = (c # pre) @ whole m @ rest (after m) \<and> before m = skipped @ (c # pre)
       \<and> (adv \<and> c # pre = [] \<longrightarrow> whole m \<noteq> [])" by simp
    then show ?thesis by blast
  next
    case (Some st')
    with Cons.prems have m: "m = \<lparr>before = skipped,
        whole = consumed \<lparr>prev = p, rest = c # cs, caps = []\<rparr> st', groups = caps st', after = st'\<rparr>"
      by simp
    from match_here_Some [OF Some] m
    have "c # cs = [] @ whole m @ rest (after m) \<and> before m = skipped @ []
       \<and> (adv \<and> ([]::string) = [] \<longrightarrow> whole m \<noteq> [])" by auto
    then show ?thesis by blast
  qed
qed

lemma scan_measure:
  assumes "scan ic r adv p s skipped = Some m"
  shows "2 * length (rest (after m)) + (if whole m = [] then 0 else 1)
       < 2 * length s + (if adv then 0 else 1)"
proof -
  from scan_Some [OF assms] obtain pre where s: "s = pre @ whole m @ rest (after m)"
    and e: "adv \<and> pre = [] \<longrightarrow> whole m \<noteq> []" by blast
  from arg_cong [OF s, of length]
  have l: "length s = length pre + length (whole m) + length (rest (after m))" by simp
  have p: "pre \<noteq> [] \<Longrightarrow> 0 < length pre"
    by simp
  show ?thesis
  proof (cases "whole m = []")
    case True
    with e l p show ?thesis by (cases adv; cases "pre = []") auto
  next
    case False
    with l have "2 * length (rest (after m)) + 1 < 2 * length s" by (cases "whole m") auto
    with False show ?thesis by simp
  qed
qed

text \<open>The matches of a pattern in a text, from left to right and without overlap, as
  \<^verbatim>\<open>re.finditer\<close>, \<^verbatim>\<open>re.findall\<close> and \<^verbatim>\<open>re.sub\<close> find them. After an empty match the
  next match may not be empty at the same position.\<close>

function matches_from :: "bool \<Rightarrow> regex \<Rightarrow> bool \<Rightarrow> char option \<Rightarrow> string \<Rightarrow> rematch list" where
  "matches_from ic r adv p s =
     (case scan ic r adv p s [] of
        None \<Rightarrow> []
      | Some m \<Rightarrow> m # matches_from ic r (whole m = []) (prev (after m)) (rest (after m)))"
  by pat_completeness auto
termination
proof (relation "measure (\<lambda>(ic, r, adv, p, s). 2 * length s + (if adv then 0 else 1))", goal_cases)
  case 1
  show ?case by simp
next
  case (2 ic r adv p s m)
  from scan_measure [OF 2] show ?case by simp
qed

declare matches_from.simps [simp del]

text \<open>\<^verbatim>\<open>re.sub\<close> with a function as replacement: the function is called once per match,
  in order, and what it appends to its enclosing list is threaded through as \<open>acc\<close>.
  The text between the matches is copied.\<close>

function subx :: "bool \<Rightarrow> regex \<Rightarrow> (rematch \<Rightarrow> 'a \<Rightarrow> string \<times> 'a) \<Rightarrow> bool \<Rightarrow> char option
    \<Rightarrow> string \<Rightarrow> 'a \<Rightarrow> string \<times> 'a" where
  "subx ic r repl adv p s acc =
     (case scan ic r adv p s [] of
        None \<Rightarrow> (s, acc)
      | Some m \<Rightarrow>
          (case repl m acc of
             (out, acc') \<Rightarrow>
               (case subx ic r repl (whole m = []) (prev (after m)) (rest (after m)) acc' of
                  (done_text, acc'') \<Rightarrow> (before m @ out @ done_text, acc''))))"
  by pat_completeness auto
termination
proof (relation "measure (\<lambda>(ic, r, repl, adv, p, s, acc). 2 * length s + (if adv then 0 else 1))",
    goal_cases)
  case 1
  show ?case by simp
next
  case (2 ic r repl adv p s acc m out acc')
  from scan_measure [OF 2(1)] show ?case by simp
qed

declare subx.simps [simp del]

definition re_sub :: "bool \<Rightarrow> regex \<Rightarrow> string \<Rightarrow> string \<Rightarrow> string" where
  "re_sub ic r new s = fst (subx ic r (\<lambda>m (u::unit). (new, u)) False None s ())"

definition re_finditer :: "bool \<Rightarrow> regex \<Rightarrow> string \<Rightarrow> rematch list" where
  "re_finditer ic r s = matches_from ic r False None s"

text \<open>\<^verbatim>\<open>re.findall\<close> lists \<^verbatim>\<open>group(0)\<close> of each match when the pattern has no capturing
  group, and group 1 when it has exactly one.\<close>

definition re_findall :: "bool \<Rightarrow> regex \<Rightarrow> string \<Rightarrow> string list" where
  "re_findall ic r s = map whole (re_finditer ic r s)"

definition re_findall1 :: "bool \<Rightarrow> regex \<Rightarrow> string \<Rightarrow> string list" where
  "re_findall1 ic r s = map (\<lambda>m. group m 1) (re_finditer ic r s)"

text \<open>What \<^verbatim>\<open>re.sub\<close> builds from the matches: each match replaced, the text between
  copied.\<close>

fun sub_text :: "(rematch \<Rightarrow> string) \<Rightarrow> rematch list \<Rightarrow> string \<Rightarrow> string" where
  "sub_text f [] s = s"
| "sub_text f (m # ms) s = before m @ f m @ sub_text f ms (rest (after m))"

lemma subx_None:
  "scan ic r adv p s [] = None \<Longrightarrow> subx ic r repl adv p s acc = (s, acc)"
  by (simp add: subx.simps [of ic r repl adv p s acc])

lemma subx_Some:
  "scan ic r adv p s [] = Some m \<Longrightarrow>
     subx ic r repl adv p s acc =
       (case repl m acc of
          (out, acc') \<Rightarrow>
            (case subx ic r repl (whole m = []) (prev (after m)) (rest (after m)) acc' of
               (done_text, acc'') \<Rightarrow> (before m @ out @ done_text, acc'')))"
  by (simp add: subx.simps [of ic r repl adv p s acc])

lemma matches_from_None:
  "scan ic r adv p s [] = None \<Longrightarrow> matches_from ic r adv p s = []"
  by (simp add: matches_from.simps [of ic r adv p s])

lemma matches_from_Some:
  "scan ic r adv p s [] = Some m \<Longrightarrow>
     matches_from ic r adv p s = m # matches_from ic r (whole m = []) (prev (after m)) (rest (after m))"
  by (simp add: matches_from.simps [of ic r adv p s])

text \<open>A replacement function that returns \<open>f m\<close> and appends \<open>g m\<close> to its list: the
  result is the text rebuilt from the matches, and one \<open>g m\<close> per match.\<close>

lemma subx_matches:
  "subx ic r (\<lambda>m acc. (f m, acc @ [g m])) adv p s acc =
     (sub_text f (matches_from ic r adv p s) s, acc @ map g (matches_from ic r adv p s))"
proof (induction ic r adv p s arbitrary: acc rule: matches_from.induct)
  case (1 ic r adv p s)
  show ?case
  proof (cases "scan ic r adv p s []")
    case None
    then show ?thesis by (simp add: subx_None matches_from_None)
  next
    case (Some m)
    from "1.IH" [OF Some] show ?thesis
      by (simp add: subx_Some [OF Some] matches_from_Some [OF Some])
  qed
qed

lemma subx_const:
  "subx ic r (\<lambda>m (u::unit). (new, u)) adv p s () =
     (sub_text (\<lambda>m. new) (matches_from ic r adv p s) s, ())"
proof (induction ic r adv p s rule: matches_from.induct)
  case (1 ic r adv p s)
  show ?case
  proof (cases "scan ic r adv p s []")
    case None
    then show ?thesis by (simp add: subx_None matches_from_None)
  next
    case (Some m)
    from "1.IH" [OF Some] show ?thesis
      by (simp add: subx_Some [OF Some] matches_from_Some [OF Some])
  qed
qed


section \<open>The query heuristics (class \<^verbatim>\<open>QueryHeuristics\<close>)\<close>

text \<open>Each heuristic takes the query and returns the processed query with the list of
  fixes it applied. The only statement that can raise is the index \<^verbatim>\<open>[1]\<close> in
  \<^verbatim>\<open>validate_email_format\<close>; it is the error \<open>IndexError\<close> of the result.\<close>

datatype py_error = IndexError

type_synonym fix_list = "string list"

definition quoted :: "string \<Rightarrow> string" where
  "quoted s = CHR 0x27 # s @ [CHR 0x27]"

definition bsl :: char where
  "bsl = CHR 0x5C"

text \<open>\<^verbatim>\<open>r'\b' + re.escape(word) + r'\b'\<close>\<close>

definition word_pattern :: "string \<Rightarrow> regex" where
  "word_pattern w = cat [WordB, lits w, WordB]"

subsection \<open>Heuristic 1: \<^verbatim>\<open>fix_typos\<close>\<close>

definition common_typos :: "(string \<times> string) list" where
  "common_typos =
     [(''clendar'', ''calendar''), (''calander'', ''calendar''), (''schedual'', ''schedule''),
      (''scedule'', ''schedule''), (''emaill'', ''email''), (''emial'', ''email''),
      (''docuemnt'', ''document''), (''documnet'', ''document''), (''serach'', ''search''),
      (''summery'', ''summary''), (''summerize'', ''summarize'')]"

fun fix_typos_loop :: "(string \<times> string) list \<Rightarrow> string \<Rightarrow> fix_list \<Rightarrow> string \<times> fix_list" where
  "fix_typos_loop [] corrected_query fixes = (corrected_query, fixes)"
| "fix_typos_loop ((typo, correction) # items) corrected_query fixes =
     (if re_search True (word_pattern typo) corrected_query
      then fix_typos_loop items (re_sub True (word_pattern typo) correction corrected_query)
             (fixes @ [''Corrected typo: '' @ quoted typo @ '' to '' @ quoted correction])
      else fix_typos_loop items corrected_query fixes)"

definition fix_typos :: "string \<Rightarrow> string \<times> fix_list" where
  "fix_typos query = fix_typos_loop common_typos query []"

subsection \<open>Heuristic 2: \<^verbatim>\<open>remove_banned_words\<close>\<close>

definition banned_words :: "string list" where
  "banned_words =
     [''hack'', ''exploit'', ''vulnerability'', ''illegal'', ''password'',
      ''credit card'', ''ssn'', ''social security'', ''porn'', ''xxx'']"

definition banned_fix :: "string \<Rightarrow> string" where
  "banned_fix word = ''Removed banned word: '' @ quoted word"

fun remove_banned_loop :: "string list \<Rightarrow> string \<Rightarrow> fix_list \<Rightarrow> string \<times> fix_list" where
  "remove_banned_loop [] clean_query fixes = (clean_query, fixes)"
| "remove_banned_loop (word # ws) clean_query fixes =
     (if re_search True (word_pattern word) clean_query
      then remove_banned_loop ws (re_sub True (word_pattern word) ''[FILTERED]'' clean_query)
             (fixes @ [banned_fix word])
      else remove_banned_loop ws clean_query fixes)"

definition remove_banned_words :: "string \<Rightarrow> string \<times> fix_list" where
  "remove_banned_words query = remove_banned_loop banned_words query []"

subsection \<open>Heuristic 3: \<^verbatim>\<open>normalize_date_formats\<close>\<close>

definition digit :: regex where
  "digit = Cls [CDigit]"

text \<open>\<^verbatim>\<open>(\d{1,2})/(\d{1,2})/(\d{2}|\d{4})\<close>\<close>

definition date_pattern :: regex where
  "date_pattern =
     cat [Grp 1 (Times 1 2 digit), Lit CHR ''/'', Grp 2 (Times 1 2 digit), Lit CHR ''/'',
          Grp 3 (Alt (Times 2 2 digit) (Times 4 4 digit))]"

text \<open>The current year (\<^verbatim>\<open>datetime.datetime.now().year\<close>) is a parameter.\<close>

definition date_replacer :: "nat \<Rightarrow> rematch \<Rightarrow> fix_list \<Rightarrow> string \<times> fix_list" where
  "date_replacer current_year m fixes =
     (let month = zfill 2 (group m 1);
          day = zfill 2 (group m 2);
          year = group m 3;
          year = (if length year = 2 then take 2 (str_nat current_year) @ year else year)
      in (year @ ''-'' @ month @ ''-'' @ day,
          fixes @ [''Normalized date format: '' @ month @ ''/'' @ day @ ''/''
                   @ drop (length year - 2) year @ '' to '' @ year @ ''-'' @ month @ ''-'' @ day]))"

definition normalize_date_formats :: "nat \<Rightarrow> string \<Rightarrow> string \<times> fix_list" where
  "normalize_date_formats current_year query =
     subx False date_pattern (date_replacer current_year) False None query []"

subsection \<open>Heuristic 4: \<^verbatim>\<open>validate_email_format\<close>\<close>

text \<open>\<^verbatim>\<open>\b[A-Za-z0-9._%+-]+@[A-Za-z0-9.-]+\.[A-Z|a-z]{2,}\b\<close>\<close>

definition email_pattern :: regex where
  "email_pattern =
     cat [WordB,
          Plus (Cls [CRange CHR ''A'' CHR ''Z'', CRange CHR ''a'' CHR ''z'', CRange CHR ''0'' CHR ''9'',
                     CChar CHR ''.'', CChar CHR ''_'', CChar CHR ''%'', CChar CHR ''+'', CChar CHR ''-'']),
          Lit CHR ''@'',
          Plus (Cls [CRange CHR ''A'' CHR ''Z'', CRange CHR ''a'' CHR ''z'', CRange CHR ''0'' CHR ''9'',
                     CChar CHR ''.'', CChar CHR ''-'']),
          Lit CHR ''.'',
          AtLeast 2 (Cls [CRange CHR ''A'' CHR ''Z'', CChar CHR ''|'', CRange CHR ''a'' CHR ''z'']),
          WordB]"

definition common_domains :: "(string \<times> string) list" where
  "common_domains =
     [(''gmal.com'', ''gmail.com''), (''gamil.com'', ''gmail.com''), (''gmial.com'', ''gmail.com''),
      (''hotmial.com'', ''hotmail.com''), (''yaho.com'', ''yahoo.com''), (''outlok.com'', ''outlook.com'')]"

definition email_fix :: "string \<Rightarrow> string \<Rightarrow> string" where
  "email_fix email corrected_email =
     ''Corrected email domain: '' @ quoted email @ '' to '' @ quoted corrected_email"

fun domains_loop :: "(string \<times> string) list \<Rightarrow> string \<Rightarrow> string \<Rightarrow> string \<Rightarrow> fix_list \<Rightarrow> string \<times> fix_list" where
  "domains_loop [] domain email validated_query fixes = (validated_query, fixes)"
| "domains_loop ((typo_domain, correct_domain) # items) domain email validated_query fixes =
     (if domain = typo_domain
      then (let corrected_email = replace email typo_domain correct_domain
            in domains_loop items domain email (replace validated_query email corrected_email)
                 (fixes @ [email_fix email corrected_email]))
      else domains_loop items domain email validated_query fixes)"

fun emails_loop :: "string list \<Rightarrow> string \<Rightarrow> fix_list \<Rightarrow> py_error + string \<times> fix_list" where
  "emails_loop [] validated_query fixes = Inr (validated_query, fixes)"
| "emails_loop (email # emails) validated_query fixes =
     (case split_on CHR ''@'' email of
        _ # domain # _ \<Rightarrow>
          (case domains_loop common_domains domain email validated_query fixes of
             (validated_query', fixes') \<Rightarrow> emails_loop emails validated_query' fixes')
      | _ \<Rightarrow> Inl IndexError)"

definition validate_email_format :: "string \<Rightarrow> py_error + string \<times> fix_list" where
  "validate_email_format query = emails_loop (re_findall False email_pattern query) query []"

subsection \<open>Heuristic 5: \<^verbatim>\<open>detect_unsafe_commands\<close>\<close>

text \<open>Each pattern with its source text, which the warning quotes.\<close>

definition unsafe_patterns :: "(string \<times> regex) list" where
  "unsafe_patterns =
     [(bsl # ''brm'' @ bsl # ''s+-rf'' @ bsl # ''b'',
         cat [WordB, lits ''rm'', Plus (Cls [CSpace]), lits ''-rf'', WordB]),
      (bsl # ''bsudo'' @ bsl # ''b'',
         cat [WordB, lits ''sudo'', WordB]),
      (bsl # ''bchmod'' @ bsl # ''b'' @ bsl # ''s+777'',
         cat [WordB, lits ''chmod'', WordB, Plus (Cls [CSpace]), lits ''777'']),
      (bsl # ''bdd'' @ bsl # ''b.*'' @ bsl # ''bif=/dev'' @ bsl # ''b'',
         cat [WordB, lits ''dd'', WordB, Star Dot, WordB, lits ''if=/dev'', WordB]),
      (bsl # ''bmkfs'' @ bsl # ''b'',
         cat [WordB, lits ''mkfs'', WordB]),
      (bsl # ''bformat'' @ bsl # ''b.*'' @ bsl # ''bdisk'' @ bsl # ''b'',
         cat [WordB, lits ''format'', WordB, Star Dot, WordB, lits ''disk'', WordB])]"

definition unsafe_warning :: "string \<Rightarrow> string" where
  "unsafe_warning pattern = ''WARNING: Potentially unsafe command detected: '' @ pattern"

fun unsafe_loop :: "(string \<times> regex) list \<Rightarrow> string \<Rightarrow> fix_list \<Rightarrow> fix_list" where
  "unsafe_loop [] query fixes = fixes"
| "unsafe_loop ((pattern, r) # ps) query fixes =
     (if re_search True r query then unsafe_loop ps query (fixes @ [unsafe_warning pattern])
      else unsafe_loop ps query fixes)"

definition detect_unsafe_commands :: "string \<Rightarrow> string \<times> fix_list" where
  "detect_unsafe_commands query = (query, unsafe_loop unsafe_patterns query [])"

subsection \<open>Heuristic 6: \<^verbatim>\<open>validate_urls\<close>\<close>

text \<open>\<^verbatim>\<open>https?://(?:[-\w.]|(?:%[\da-fA-F]{2}))+\<close>\<close>

definition url_pattern :: regex where
  "url_pattern =
     cat [lits ''http'', Opt (Lit CHR ''s''), lits ''://'',
          Plus (Alt (Cls [CChar CHR ''-'', CWord, CChar CHR ''.''])
                    (cat [Lit CHR ''%'',
                          Times 2 2 (Cls [CDigit, CRange CHR ''a'' CHR ''f'', CRange CHR ''A'' CHR ''F''])]))]"

definition suspicious_patterns :: "string list" where
  "suspicious_patterns = [''malware'', ''phish'', ''hack'', ''crack'', ''warez'', ''porn'', ''xxx'']"

fun suspicious_loop :: "string list \<Rightarrow> string \<Rightarrow> string \<Rightarrow> fix_list \<Rightarrow> string \<times> fix_list" where
  "suspicious_loop [] url clean_query fixes = (clean_query, fixes)"
| "suspicious_loop (pattern # ps) url clean_query fixes =
     (if re_search True (lits pattern) url
      then (replace clean_query url ''[FILTERED_URL]'',
            fixes @ [''Removed suspicious URL containing '' @ quoted pattern])
      else suspicious_loop ps url clean_query fixes)"

fun urls_loop :: "string list \<Rightarrow> string \<Rightarrow> fix_list \<Rightarrow> string \<times> fix_list" where
  "urls_loop [] clean_query fixes = (clean_query, fixes)"
| "urls_loop (url # urls) clean_query fixes =
     (case suspicious_loop suspicious_patterns url clean_query fixes of
        (clean_query', fixes') \<Rightarrow> urls_loop urls clean_query' fixes')"

definition validate_urls :: "string \<Rightarrow> string \<times> fix_list" where
  "validate_urls query = urls_loop (re_findall False url_pattern query) query []"

subsection \<open>Heuristic 7: \<^verbatim>\<open>normalize_numeric_values\<close>\<close>

text \<open>\<^verbatim>\<open>[$...](\d{1,3}(?:,\d{3})+|\d+)(?:\.\d+)?\<close>, the class holding the dollar, euro,
  pound and yen signs. The euro sign is code point 8364, outside the strings modelled
  here, so the class is written with the other three.\<close>

definition currency_pattern :: regex where
  "currency_pattern =
     cat [Cls [CChar CHR ''$'', CChar CHR 0xA3, CChar CHR 0xA5],
          Grp 1 (Alt (cat [Times 1 3 digit, Plus (cat [Lit CHR '','', Times 3 3 digit])]) (Plus digit)),
          Opt (cat [Lit CHR ''.'', Plus digit])]"

text \<open>\<^verbatim>\<open>value[0]\<close> and \<^verbatim>\<open>value[1:].replace(',', '')\<close>: a match is never empty, it
  starts with the symbol.\<close>

definition normalized_amount :: "string \<Rightarrow> string" where
  "normalized_amount val =
     (let symbol = take 1 val;
          numeric_part = replace (drop 1 val) '','' []
      in symbol @ numeric_part)"

definition currency_fix :: "string \<Rightarrow> string" where
  "currency_fix val = ''Normalized currency value: '' @ val @ '' to '' @ normalized_amount val"

definition currency_replacer :: "rematch \<Rightarrow> fix_list \<Rightarrow> string \<times> fix_list" where
  "currency_replacer m fixes =
     (let val = whole m in (normalized_amount val, fixes @ [currency_fix val]))"

definition normalize_numeric_values :: "string \<Rightarrow> string \<times> fix_list" where
  "normalize_numeric_values query = subx False currency_pattern currency_replacer False None query []"

subsection \<open>Heuristic 8: \<^verbatim>\<open>detect_pii\<close>\<close>

definition sep_opt :: regex where
  "sep_opt = Opt (Cls [CChar CHR ''-'', CSpace])"

text \<open>\<^verbatim>\<open>\b(?:\d{4}[-\s]?){3}\d{4}\b\<close> and \<^verbatim>\<open>\b\d{3}[-\s]?\d{2}[-\s]?\d{4}\b\<close>\<close>

definition cc_pattern :: regex where
  "cc_pattern = cat [WordB, Times 3 3 (cat [Times 4 4 digit, sep_opt]), Times 4 4 digit, WordB]"

definition ssn_pattern :: regex where
  "ssn_pattern = cat [WordB, Times 3 3 digit, sep_opt, Times 2 2 digit, sep_opt, Times 4 4 digit, WordB]"

definition detect_pii :: "string \<Rightarrow> string \<times> fix_list" where
  "detect_pii query =
     (let (query, fixes) =
            (if re_search False cc_pattern query
             then (re_sub False cc_pattern ''[REDACTED_CARD_NUMBER]'' query,
                   [''Redacted potential credit card number''])
             else (query, []))
      in if re_search False ssn_pattern query
         then (re_sub False ssn_pattern ''[REDACTED_SSN]'' query,
               fixes @ [''Redacted potential Social Security Number''])
         else (query, fixes))"

subsection \<open>Heuristic 9: \<^verbatim>\<open>remove_excessive_whitespace\<close>\<close>

definition remove_excessive_whitespace :: "string \<Rightarrow> string \<times> fix_list" where
  "remove_excessive_whitespace query =
     (let cleaned_query = strip (re_sub False (Plus (Cls [CSpace])) '' '' query)
      in (cleaned_query, if cleaned_query \<noteq> query then [''Removed excessive whitespace''] else []))"

subsection \<open>Heuristic 10: \<^verbatim>\<open>limit_query_length\<close>\<close>

definition str_int :: "int \<Rightarrow> string" where
  "str_int i = (if i < 0 then CHR ''-'' # str_nat (nat (- i)) else str_nat (nat i))"

text \<open>The slice \<^verbatim>\<open>s[:n]\<close>: a negative \<open>n\<close> counts from the end.\<close>

definition slice_to :: "int \<Rightarrow> string \<Rightarrow> string" where
  "slice_to n s = (if 0 \<le> n then take (nat n) s else take (nat (int (length s) + n)) s)"

definition limit_query_length :: "string \<Rightarrow> int \<Rightarrow> string \<times> fix_list" where
  "limit_query_length query max_length =
     (if int (length query) > max_length
      then (slice_to max_length query @ ''...'',
            [''Truncated query from '' @ str_nat (length query) @ '' to '' @ str_int max_length
             @ '' characters''])
      else (query, []))"

subsection \<open>The pipeline: \<^verbatim>\<open>validate_and_fix_query\<close> and \<^verbatim>\<open>apply_heuristics\<close>\<close>

type_synonym heuristic = "string \<Rightarrow> py_error + string \<times> fix_list"

definition total :: "(string \<Rightarrow> string \<times> fix_list) \<Rightarrow> heuristic" where
  "total h query = Inr (h query)"

definition heuristics :: "nat \<Rightarrow> heuristic list" where
  "heuristics current_year =
     [total fix_typos,
      total remove_banned_words,
      total (normalize_date_formats current_year),
      validate_email_format,
      total detect_unsafe_commands,
      total validate_urls,
      total normalize_numeric_values,
      total detect_pii,
      total remove_excessive_whitespace,
      total (\<lambda>query. limit_query_length query 500)]"

fun run_heuristics :: "heuristic list \<Rightarrow> string \<Rightarrow> fix_list \<Rightarrow> py_error + string \<times> fix_list" where
  "run_heuristics [] query applied_fixes = Inr (query, applied_fixes)"
| "run_heuristics (heuristic_fn # hs) query applied_fixes =
     (case heuristic_fn query of
        Inl e \<Rightarrow> Inl e
      | Inr (query', fixes) \<Rightarrow> run_heuristics hs query' (applied_fixes @ fixes))"

definition validate_and_fix_query :: "nat \<Rightarrow> string \<Rightarrow> py_error + string \<times> fix_list" where
  "validate_and_fix_query current_year query = run_heuristics (heuristics current_year) query []"

definition apply_heuristics :: "nat \<Rightarrow> string \<Rightarrow> py_error + string \<times> fix_list" where
  "apply_heuristics current_year query = validate_and_fix_query current_year query"

section \<open>The result heuristics (class \<^verbatim>\<open>ResultHeuristics\<close>)\<close>

subsection \<open>\<^verbatim>\<open>check_for_hallucinations\<close>\<close>

text \<open>\<^verbatim>\<open>\b[A-Za-z]+\b\<close>\<close>

definition term_pattern :: regex where
  "term_pattern = cat [WordB, Plus (Cls [CRange CHR ''A'' CHR ''Z'', CRange CHR ''a'' CHR ''z'']), WordB]"

definition capitalized :: regex where
  "capitalized = Seq (Cls [CRange CHR ''A'' CHR ''Z'']) (Plus (Cls [CRange CHR ''a'' CHR ''z'']))"

text \<open>\<^verbatim>\<open>(?:(?:the|an?)\s+([A-Z][a-z]+(?:\s+[A-Z][a-z]+)*))\<close>, matched without flags.\<close>

definition entities_pattern :: regex where
  "entities_pattern =
     cat [Alt (lits ''the'') (cat [Lit CHR ''a'', Opt (Lit CHR ''n'')]),
          Plus (Cls [CSpace]),
          Grp 1 (cat [capitalized, Star (cat [Plus (Cls [CSpace]), capitalized])])]"

definition terms_of :: "string \<Rightarrow> string set" where
  "terms_of s = set (re_findall False term_pattern (lower s))"

definition mentioned_entities :: "string \<Rightarrow> string list" where
  "mentioned_entities response = re_findall1 False entities_pattern response"

definition hallucination_reason :: "string \<Rightarrow> string" where
  "hallucination_reason entity =
     ''Response mentions '' @ quoted entity @ '' which was not in the original query''"

fun entities_loop :: "string list \<Rightarrow> string set \<Rightarrow> string list \<Rightarrow> string list" where
  "entities_loop [] query_terms reasons = reasons"
| "entities_loop (entity # es) query_terms reasons =
     (if terms_of entity \<inter> query_terms = {}
      then entities_loop es query_terms (reasons @ [hallucination_reason entity])
      else entities_loop es query_terms reasons)"

definition check_for_hallucinations :: "string \<Rightarrow> string \<Rightarrow> bool \<times> string list" where
  "check_for_hallucinations query response =
     (let query_terms = terms_of query;
          reasons = entities_loop (mentioned_entities response) query_terms []
      in (length reasons > 0, reasons))"

subsection \<open>\<^verbatim>\<open>validate_tool_output\<close> and the JSON of \<^verbatim>\<open>json.loads\<close> and \<^verbatim>\<open>json.dumps\<close>\<close>











































section \<open>Properties of the query heuristics\<close>

subsection \<open>Length capping\<close>

lemma slice_to_length: "0 \<le> n \<Longrightarrow> int (length (slice_to n s)) \<le> n"
  by (simp add: slice_to_def)

text \<open>
  Claim C4, as amended. For every input string and every maximum length that is not
  negative, \<open>limit_query_length\<close> returns a string of at most \<open>max_length + 3\<close>
  characters; and an input whose length is at or under \<open>max_length\<close> is returned
  unchanged with an empty fix list.
\<close>

theorem limit_query_length_bound:
  assumes "0 \<le> max_length"
  shows "int (length (fst (limit_query_length query max_length))) \<le> max_length + 3
       \<and> (int (length query) \<le> max_length \<longrightarrow> limit_query_length query max_length = (query, []))"
  using assms slice_to_length [OF assms, of query] by (simp add: limit_query_length_def)

theorem limit_query_length_bound_witness:
  "(0::int) \<le> 3
     \<and> int (length (fst (limit_query_length ''abcdef'' 3))) \<le> 3 + 3
     \<and> fst (limit_query_length ''abcdef'' 3) = ''abc...''
     \<and> int (length ''abc'') \<le> 3
     \<and> limit_query_length ''abc'' 3 = (''abc'', [])"
  using limit_query_length_bound [of 3 "''abcdef''"] limit_query_length_bound [of 3 "''abc''"]
  by (simp add: limit_query_length_def slice_to_def)

text \<open>
  The claim as stated, for every maximum length, fails for a negative one: the slice
  \<^verbatim>\<open>query[:-1]\<close> drops one character only, so six characters with the maximum \<open>-1\<close>
  give eight characters, not at most two.
\<close>

theorem limit_query_length_negative_counterexample:
  "\<not> int (length (fst (limit_query_length ''abcdef'' (- 1)))) \<le> (- 1) + 3"
  by (simp add: limit_query_length_def slice_to_def)

subsection \<open>Unsafe commands are reported, not removed\<close>

lemma unsafe_loop_eq:
  "unsafe_loop ps query fs =
     fs @ map (\<lambda>(pattern, r). unsafe_warning pattern)
            (filter (\<lambda>(pattern, r). re_search True r query) ps)"
  by (induction ps arbitrary: fs) auto

text \<open>
  Claim C8. For every query, \<open>detect_unsafe_commands\<close> returns the query itself; the fix
  list holds one warning for each unsafe pattern that matches the query
  (case-insensitively), in the order of the patterns.
\<close>

theorem detect_unsafe_commands_frame:
  "detect_unsafe_commands query =
     (query, map (\<lambda>(pattern, r). unsafe_warning pattern)
               (filter (\<lambda>(pattern, r). re_search True r query) unsafe_patterns))"
  by (simp add: detect_unsafe_commands_def unsafe_loop_eq)

subsection \<open>The end-to-end example\<close>

definition example_query :: string where
  "example_query =
     ''Can u give me the docuemnt for 1/5/24, my email is john@gmal.com, ignore this sudo rm -rf /''"

definition example_result :: "string \<times> fix_list" where
  "example_result =
     (''Can u give me the document for 2024-01-05, my email is john@gmail.com, ignore this sudo rm -rf /'',
      [''Corrected typo: '' @ quoted ''docuemnt'' @ '' to '' @ quoted ''document'',
       ''Normalized date format: 01/05/24 to 2024-01-05'',
       email_fix ''john@gmal.com'' ''john@gmail.com'',
       unsafe_warning (bsl # ''brm'' @ bsl # ''s+-rf'' @ bsl # ''b''),
       unsafe_warning (bsl # ''bsudo'' @ bsl # ''b'')])"

lemma century_2000s:
  assumes "2000 \<le> y" "y \<le> 2099"
  shows "take 2 (str_nat y) = ''20''"
proof -
  from assms have h: "y div 100 = 20" by (intro div_nat_eqI) simp_all
  have e: "y div 10 div 10 = 20" using h by (simp add: div_mult2_eq)
  have d: "y div 10 div 10 div 10 = 2" "y div 10 div 10 mod 10 = 0" by (simp_all add: e)
  have n: "\<not> y < 10" "\<not> y div 10 < 10" "\<not> y div 10 div 10 < 10"
    using assms e by (simp, cases "y div 10 < 10", simp_all)
  have s1: "str_nat y = str_nat (y div 10) @ [digit_char (y mod 10)]"
    using n(1) by (subst str_nat.simps) (simp only: if_False)
  have s2: "str_nat (y div 10) = str_nat (y div 10 div 10) @ [digit_char (y div 10 mod 10)]"
    using n(2) by (subst str_nat.simps) (simp only: if_False)
  have s3: "str_nat (y div 10 div 10) = str_nat 2 @ [digit_char 0]"
    using n(3) by (subst str_nat.simps) (simp only: if_False d)
  have s4: "str_nat 2 = [digit_char 2]"
    by (subst str_nat.simps) simp
  have c: "digit_char 2 = CHR ''2''" "digit_char 0 = CHR ''0''" by code_simp+
  show ?thesis by (simp only: s1 s2 s3 s4 c) simp
qed

lemma date_replacer_2000s:
  assumes "2000 \<le> y" "y \<le> 2099"
  shows "date_replacer y = date_replacer 2024"
proof -
  have a: "take 2 (str_nat y) = ''20''" by (rule century_2000s [OF assms])
  have b: "take 2 (str_nat 2024) = ''20''" by (rule century_2000s) simp_all
  show ?thesis unfolding date_replacer_def a b by (rule refl)
qed

lemma apply_heuristics_2000s:
  assumes "2000 \<le> y" "y \<le> 2099"
  shows "apply_heuristics y query = apply_heuristics 2024 query"
proof -
  have "normalize_date_formats y = normalize_date_formats 2024"
    by (rule ext) (simp only: normalize_date_formats_def date_replacer_2000s [OF assms])
  then have "heuristics y = heuristics 2024"
    by (simp only: heuristics_def)
  then show ?thesis
    by (simp only: apply_heuristics_def validate_and_fix_query_def)
qed

lemma example_2024: "apply_heuristics 2024 example_query = Inr example_result"
  by code_simp

text \<open>
  Claim C1. When the current year is in the 2000s, \<open>apply_heuristics\<close> on the example
  query returns the query with \<open>docuemnt\<close> replaced by \<open>document\<close>, \<open>1/5/24\<close> rewritten
  to \<open>2024-01-05\<close> and \<open>john@gmal.com\<close> to \<open>john@gmail.com\<close>; \<open>sudo rm -rf /\<close> is still
  in it; and the fix list holds a warning for the \<open>rm -rf\<close> pattern and one for the
  \<open>sudo\<close> pattern (after the records of the typo, the date and the email).
\<close>

theorem apply_heuristics_example:
  assumes "2000 \<le> current_year" "current_year \<le> 2099"
  shows "apply_heuristics current_year example_query = Inr example_result
       \<and> contains (fst example_result) ''document''
       \<and> \<not> contains (fst example_result) ''docuemnt''
       \<and> contains (fst example_result) ''2024-01-05''
       \<and> contains (fst example_result) ''john@gmail.com''
       \<and> contains (fst example_result) ''sudo rm -rf /''
       \<and> unsafe_warning (bsl # ''bsudo'' @ bsl # ''b'') \<in> set (snd example_result)
       \<and> unsafe_warning (bsl # ''brm'' @ bsl # ''s+-rf'' @ bsl # ''b'') \<in> set (snd example_result)"
proof -
  have f0: "apply_heuristics current_year example_query = Inr example_result"
    by (simp only: apply_heuristics_2000s [OF assms] example_2024)
  have f1: "contains (fst example_result) ''document''" by code_simp
  have f2: "\<not> contains (fst example_result) ''docuemnt''" by code_simp
  have f3: "contains (fst example_result) ''2024-01-05''" by code_simp
  have f4: "contains (fst example_result) ''john@gmail.com''" by code_simp
  have f5: "contains (fst example_result) ''sudo rm -rf /''" by code_simp
  have f6: "unsafe_warning (bsl # ''bsudo'' @ bsl # ''b'') \<in> set (snd example_result)"
    by (simp add: example_result_def)
  have f7: "unsafe_warning (bsl # ''brm'' @ bsl # ''s+-rf'' @ bsl # ''b'') \<in> set (snd example_result)"
    by (simp add: example_result_def)
  show ?thesis
    apply (intro conjI)
    apply (rule f0)
    apply (rule f1)
    apply (rule f2)
    apply (rule f3)
    apply (rule f4)
    apply (rule f5)
    apply (rule f6)
    apply (rule f7)
    done
qed

theorem apply_heuristics_example_witness:
  "(2000::nat) \<le> 2024 \<and> (2024::nat) \<le> 2099
     \<and> apply_heuristics 2024 example_query = Inr example_result"
proof -
  have a: "(2000::nat) \<le> 2024" and b: "(2024::nat) \<le> 2099" by simp_all
  from apply_heuristics_example [OF a b] a b show ?thesis by (intro conjI) (erule conjunct1 | assumption)+
qed

subsection \<open>Dates\<close>

text \<open>
  Claim C10 at its own example. The pattern tries the two-digit year before the
  four-digit one, so in \<open>99/99/9999\<close> it matches \<open>99/99/99\<close> only: the year gets the
  century of the current year, and the last two digits are left behind the rewritten
  date. The result is \<open>2099-99-9999\<close>, not \<open>9999-99-99\<close>.
\<close>

theorem normalize_date_formats_four_digit_year:
  "normalize_date_formats 2024 ''99/99/9999''
     = (''2099-99-9999'', [''Normalized date format: 99/99/99 to 2099-99-99''])"
  by code_simp

subsection \<open>Counterexamples to the claims that the code does not meet\<close>

text \<open>
  Claim C2 as stated. The query \<open>credit card credit  card\<close> holds the banned phrase
  \<open>credit card\<close> as whole words. \<open>remove_banned_words\<close> filters the first occurrence;
  the second has two spaces and is not matched. The whitespace step, later in the
  pipeline, joins it to \<open>credit card\<close>: the string the pipeline returns contains the
  banned phrase, as whole words.
\<close>

theorem banned_word_pipeline_counterexample:
  "re_search True (word_pattern ''credit card'') ''credit card credit  card''
     \<and> apply_heuristics 2024 ''credit card credit  card''
         = Inr (''[FILTERED] credit card'', [banned_fix ''credit card'', ''Removed excessive whitespace''])
     \<and> contains ''[FILTERED] credit card'' ''credit card''
     \<and> re_search True (word_pattern ''credit card'') ''[FILTERED] credit card''"
  by code_simp

text \<open>
  Claim C5 at its own example. The pattern is matched without \<^verbatim>\<open>re.IGNORECASE\<close> and
  its articles are in lower case, so \<open>The\<close> at the start of the response is no
  article: nothing is extracted and nothing is flagged.
\<close>

theorem hallucination_example_counterexample:
  "check_for_hallucinations ''tell me about the weather'' ''The Eiffel Tower is tall.'' = (False, [])"
  by code_simp

text \<open>
  Claim C6 as stated. \<^verbatim>\<open>str.replace\<close> has no count argument here, so both occurrences
  of the address are replaced (and a fix is recorded for each address found).
\<close>

theorem email_first_occurrence_counterexample:
  "validate_email_format ''a@gmal.com and a@gmal.com''
     = Inr (''a@gmail.com and a@gmail.com'',
            [email_fix ''a@gmal.com'' ''a@gmail.com'', email_fix ''a@gmal.com'' ''a@gmail.com''])
   \<and> validate_email_format ''a@gmal.com and a@gmal.com''
     \<noteq> Inr (''a@gmail.com and a@gmal.com'', [email_fix ''a@gmal.com'' ''a@gmail.com''])"
  by code_simp

text \<open>
  Claim C7 as stated. An amount without thousands separators is matched by the second
  branch of the pattern; the replacement function returns it as it was, and appends a
  fix record all the same.
\<close>

theorem currency_no_separator_counterexample:
  "normalize_numeric_values ''$100'' = (''$100'', [''Normalized currency value: $100 to $100''])"
  by code_simp

subsection \<open>Whitespace normalization is idempotent\<close>

text \<open>Substituting one blank for every run of whitespace is the function \<open>collapse\<close>.\<close>

function collapse :: "string \<Rightarrow> string" where
  "collapse [] = []"
| "collapse (c # cs) = (if is_space c then CHR '' '' # collapse (dropWhile is_space cs) else c # collapse cs)"
  by pat_completeness auto
termination
  by (relation "measure length") (auto simp: length_dropWhile_le less_Suc_eq_le)

lemma class_mem_space: "class_mem ic [CSpace] = is_space"
  by (simp add: class_mem_def fun_eq_iff)

lemma rmatch_Rep_Cls:
  "rmatch ic (Rep m None (Cls items)) st =
     (case rest st of
        x # xs \<Rightarrow> if class_mem ic items x
                 then rmatch ic (Rep (m - 1) None (Cls items)) (st\<lparr>prev := Some x, rest := xs\<rparr>)
                 else []
      | [] \<Rightarrow> [])
     @ (if m = 0 then [st] else [])"
  by (subst rmatch_Rep_unfold) (simp add: step_char_def dec_max_def split: list.split)

definition run_class :: "(char \<Rightarrow> bool) \<Rightarrow> mstate \<Rightarrow> mstate" where
  "run_class P st =
     (if takeWhile P (rest st) = [] then st
      else st\<lparr>prev := Some (last (takeWhile P (rest st))), rest := dropWhile P (rest st)\<rparr>)"

lemma rmatch_Rep_Cls_hd:
  "rest st = s \<Longrightarrow>
     (m \<le> length (takeWhile (class_mem ic items) s)
        \<longrightarrow> (\<exists>l. rmatch ic (Rep m None (Cls items)) st = run_class (class_mem ic items) st # l))
   \<and> (\<not> m \<le> length (takeWhile (class_mem ic items) s)
        \<longrightarrow> rmatch ic (Rep m None (Cls items)) st = [])"
proof (induction s arbitrary: m st)
  case Nil
  then show ?case by (subst rmatch_Rep_Cls, subst rmatch_Rep_Cls) (simp add: run_class_def)
next
  case (Cons x xs)
  let ?P = "class_mem ic items"
  let ?st1 = "st\<lparr>prev := Some x, rest := xs\<rparr>"
  show ?case
  proof (cases "?P x")
    case False
    with Cons.prems show ?thesis
      by (subst rmatch_Rep_Cls, subst rmatch_Rep_Cls) (simp add: run_class_def)
  next
    case True
    have r1: "rest ?st1 = xs" by simp
    note IH = Cons.IH [OF r1, of "m - 1"]
    have unf: "rmatch ic (Rep m None (Cls items)) st =
        rmatch ic (Rep (m - 1) None (Cls items)) ?st1 @ (if m = 0 then [st] else [])"
      using Cons.prems True by (subst rmatch_Rep_Cls) simp
    have dw: "takeWhile ?P xs = [] \<Longrightarrow> dropWhile ?P xs = xs"
      by (cases xs) (auto split: if_splits)
    show ?thesis
    proof (cases "m - 1 \<le> length (takeWhile ?P xs)")
      case le: True
      with IH obtain l where l: "rmatch ic (Rep (m - 1) None (Cls items)) ?st1 = run_class ?P ?st1 # l"
        by blast
      have "run_class ?P ?st1 = run_class ?P st"
        using Cons.prems True dw by (auto simp: run_class_def)
      with l unf le True show ?thesis by auto
    next
      case gt: False
      with IH have "rmatch ic (Rep (m - 1) None (Cls items)) ?st1 = []" by blast
      with unf gt True show ?thesis by auto
    qed
  qed
qed


definition ws_pattern :: regex where
  "ws_pattern = Plus (Cls [CSpace])"

lemma take_length_dropWhile: "take (length s - length (dropWhile P s)) s = takeWhile P s"
proof -
  have "length s = length (takeWhile P s) + length (dropWhile P s)"
    by (metis length_append takeWhile_dropWhile_id)
  then have "length s - length (dropWhile P s) = length (takeWhile P s)" by simp
  then show ?thesis by (simp add: takeWhile_eq_take [symmetric])
qed

lemma match_here_ws:
  "match_here False ws_pattern False st =
     (if takeWhile is_space (rest st) = [] then None else Some (run_class is_space st))"
proof -
  from rmatch_Rep_Cls_hd [of st "rest st" 1 False "[CSpace]"]
  have a: "1 \<le> length (takeWhile is_space (rest st))
        \<longrightarrow> (\<exists>l. rmatch False (Rep 1 None (Cls [CSpace])) st = run_class is_space st # l)"
    and b: "\<not> 1 \<le> length (takeWhile is_space (rest st))
        \<longrightarrow> rmatch False (Rep 1 None (Cls [CSpace])) st = []"
    by (simp_all add: class_mem_space)
  show ?thesis
  proof (cases "takeWhile is_space (rest st) = []")
    case True
    with b show ?thesis by (simp add: match_here_def ws_pattern_def Plus_def)
  next
    case False
    then have "1 \<le> length (takeWhile is_space (rest st))" by (cases "takeWhile is_space (rest st)") auto
    with a obtain l where "rmatch False (Rep 1 None (Cls [CSpace])) st = run_class is_space st # l" by blast
    with False show ?thesis by (simp add: match_here_def ws_pattern_def Plus_def)
  qed
qed

definition nsp :: "char \<Rightarrow> bool" where
  "nsp c = (\<not> is_space c)"

lemma scan_ws:
  "scan False ws_pattern False p s skipped =
     (if dropWhile nsp s = [] then None
      else Some \<lparr>before = skipped @ takeWhile nsp s,
                 whole = takeWhile is_space (dropWhile nsp s),
                 groups = [],
                 after = \<lparr>prev = Some (last (takeWhile is_space (dropWhile nsp s))),
                          rest = dropWhile is_space (dropWhile nsp s), caps = []\<rparr>\<rparr>)"
proof (induction s arbitrary: p skipped)
  case Nil
  show ?case by (simp add: match_here_ws)
next
  case (Cons c cs)
  show ?case
  proof (cases "is_space c")
    case True
    then have "\<not> nsp c" by (simp add: nsp_def)
    with True show ?thesis
      using take_length_dropWhile [of "c # cs" is_space]
      by (simp add: match_here_ws run_class_def consumed_def)
  next
    case False
    then have "nsp c" by (simp add: nsp_def)
    with False show ?thesis
      by (simp add: match_here_ws Cons.IH)
  qed
qed

lemma collapse_nospace: "dropWhile nsp s = [] \<Longrightarrow> collapse s = s"
  by (induction s) (auto simp: nsp_def split: if_splits)

lemma collapse_split:
  "dropWhile nsp s \<noteq> [] \<Longrightarrow>
     collapse s = takeWhile nsp s @ '' '' @ collapse (dropWhile is_space (dropWhile nsp s))"
proof (induction s)
  case Nil
  then show ?case by simp
next
  case (Cons c cs)
  then show ?case by (cases "is_space c") (auto simp: nsp_def)
qed

lemma re_sub_ws_aux:
  "fst (subx False ws_pattern (\<lambda>m (u::unit). ('' '', u)) False p s ()) = collapse s"
proof (induction s arbitrary: p rule: length_induct)
  case (1 s)
  show ?case
  proof (cases "dropWhile nsp s = []")
    case True
    then have sn: "scan False ws_pattern False p s [] = None" by (simp add: scan_ws)
    show ?thesis by (simp add: subx_None [OF sn] collapse_nospace [OF True])
  next
    case False
    let ?r = "dropWhile is_space (dropWhile nsp s)"
    let ?w = "takeWhile is_space (dropWhile nsp s)"
    define m where "m = \<lparr>before = [] @ takeWhile nsp s, whole = ?w, groups = [],
       after = \<lparr>prev = Some (last ?w), rest = ?r, caps = []\<rparr>\<rparr>"
    have sc: "scan False ws_pattern False p s [] = Some m"
      unfolding m_def using False by (simp only: scan_ws if_False)
    from False have "is_space (hd (dropWhile nsp s))"
      using hd_dropWhile [of nsp s] by (simp add: nsp_def)
    then have w: "?w \<noteq> []"
      using False by (cases "dropWhile nsp s") auto
    have "length (dropWhile nsp s) = length ?w + length ?r"
      by (metis length_append takeWhile_dropWhile_id)
    moreover from w have "0 < length ?w" by simp
    moreover have "length (dropWhile nsp s) \<le> length s" by (rule length_dropWhile_le)
    ultimately have "length ?r < length s" by linarith
    with 1 have IH: "\<And>p. fst (subx False ws_pattern (\<lambda>m (u::unit). ('' '', u)) False p ?r ()) = collapse ?r"
      by blast
    have wm: "(whole m = []) = False" using w by (simp add: m_def)
    have "fst (subx False ws_pattern (\<lambda>m (u::unit). ('' '', u)) False p s ())
        = takeWhile nsp s @ '' '' @ fst (subx False ws_pattern (\<lambda>m (u::unit). ('' '', u)) False
             (Some (last ?w)) ?r ())"
      by (simp add: subx_Some [OF sc] wm split_beta) (simp add: m_def)
    also have "\<dots> = takeWhile nsp s @ '' '' @ collapse ?r" by (simp only: IH)
    also have "\<dots> = collapse s" by (rule collapse_split [OF False, symmetric])
    finally show ?thesis .
  qed
qed

lemma re_sub_ws: "re_sub False (Plus (Cls [CSpace])) '' '' s = collapse s"
  using re_sub_ws_aux [of None s] by (simp add: re_sub_def ws_pattern_def)


fun normal :: "string \<Rightarrow> bool" where
  "normal [] = True"
| "normal [c] = (is_space c \<longrightarrow> c = CHR '' '')"
| "normal (c # d # r) = ((is_space c \<longrightarrow> c = CHR '' '' \<and> \<not> is_space d) \<and> normal (d # r))"

lemma is_space_blank: "is_space CHR '' ''"
  by (simp add: is_space_def between_def)

lemma normal_Cons_nonspace: "\<not> is_space c \<Longrightarrow> normal (c # t) = normal t"
  by (cases t) auto

lemma normal_Cons_blank:
  "normal (CHR '' '' # t) = ((t = [] \<or> \<not> is_space (hd t)) \<and> normal t)"
  by (cases t) (auto simp: is_space_blank)

lemma collapse_head: "s = [] \<or> \<not> is_space (hd s) \<Longrightarrow> collapse s = [] \<or> \<not> is_space (hd (collapse s))"
  by (cases s) auto

lemma dropWhile_head: "dropWhile P s = [] \<or> \<not> P (hd (dropWhile P s))"
  using hd_dropWhile [of P s] by blast

lemma normal_collapse: "normal (collapse s)"
proof (induction s rule: collapse.induct)
  case 1
  show ?case by simp
next
  case (2 c cs)
  show ?case
  proof (cases "is_space c")
    case True
    with 2 have n: "normal (collapse (dropWhile is_space cs))" by simp
    from collapse_head [OF dropWhile_head [of is_space cs]] n True show ?thesis
      by (simp add: normal_Cons_blank)
  next
    case False
    with 2 show ?thesis by (simp add: normal_Cons_nonspace)
  qed
qed

lemma dropWhile_id: "s = [] \<or> \<not> P (hd s) \<Longrightarrow> dropWhile P s = s"
  by (cases s) auto

lemma collapse_normal: "normal t \<Longrightarrow> collapse t = t"
proof (induction t rule: normal.induct)
  case 1
  show ?case by simp
next
  case (2 c)
  then show ?case by auto
next
  case (3 c d r)
  then show ?case by auto
qed

lemma normal_append1: "normal (a @ b) \<Longrightarrow> normal a"
proof (induction a rule: normal.induct)
  case 1
  show ?case by simp
next
  case (2 c)
  then show ?case by (cases b) auto
next
  case (3 c d r)
  then show ?case by auto
qed

lemma normal_tail: "normal (c # t) \<Longrightarrow> normal t"
  by (cases t) auto

lemma normal_append2: "normal (a @ b) \<Longrightarrow> normal b"
  by (induction a) (auto dest: normal_tail)

lemma strip_prefix: "\<exists>w. dropWhile is_space s = strip s @ w"
proof -
  let ?u = "dropWhile is_space s"
  have "strip s @ rev (takeWhile is_space (rev ?u))
      = rev (takeWhile is_space (rev ?u) @ dropWhile is_space (rev ?u))"
    by (simp only: strip_def rev_append)
  also have "\<dots> = ?u" by (simp only: takeWhile_dropWhile_id rev_rev_ident)
  finally have "?u = strip s @ rev (takeWhile is_space (rev ?u))" by (rule sym)
  then show ?thesis by blast
qed

lemma normal_strip: "normal s \<Longrightarrow> normal (strip s)"
proof -
  assume n: "normal s"
  have "s = takeWhile is_space s @ dropWhile is_space s" by simp
  with n have "normal (takeWhile is_space s @ dropWhile is_space s)" by simp
  then have "normal (dropWhile is_space s)" by (rule normal_append2)
  moreover obtain w where "dropWhile is_space s = strip s @ w" using strip_prefix by blast
  ultimately show ?thesis using normal_append1 by simp
qed

lemma strip_head: "strip s = [] \<or> \<not> is_space (hd (strip s))"
proof -
  obtain w where w: "dropWhile is_space s = strip s @ w" using strip_prefix by blast
  show ?thesis
  proof (cases "strip s")
    case Nil
    then show ?thesis by simp
  next
    case (Cons c t)
    with w have "hd (dropWhile is_space s) = c" "dropWhile is_space s \<noteq> []" by auto
    with dropWhile_head [of is_space s] Cons show ?thesis by auto
  qed
qed

lemma strip_strip: "strip (strip s) = strip s"
proof -
  have a: "dropWhile is_space (strip s) = strip s" by (rule dropWhile_id [of "strip s" is_space, OF strip_head])
  have "rev (strip s) = dropWhile is_space (rev (dropWhile is_space s))" by (simp add: strip_def)
  then have "dropWhile is_space (rev (strip s)) = rev (strip s)" by (simp add: dropWhile_idem)
  then have "rev (dropWhile is_space (rev (strip s))) = strip s" by simp
  then show ?thesis unfolding strip_def [of "strip s"] a .
qed

text \<open>
  Claim C9. \<open>remove_excessive_whitespace\<close> is idempotent: applied to its own output it
  returns that output unchanged, and this second application records no fix.
\<close>

theorem remove_excessive_whitespace_idempotent:
  "remove_excessive_whitespace (fst (remove_excessive_whitespace query))
     = (fst (remove_excessive_whitespace query), [])"
proof -
  let ?c = "strip (collapse query)"
  have c: "fst (remove_excessive_whitespace query) = ?c"
    by (simp add: remove_excessive_whitespace_def re_sub_ws Let_def)
  have "normal ?c" by (rule normal_strip [OF normal_collapse])
  then have "collapse ?c = ?c" by (rule collapse_normal)
  then have "strip (collapse ?c) = ?c" by (simp add: strip_strip)
  then have "remove_excessive_whitespace ?c = (?c, [])"
    by (simp add: remove_excessive_whitespace_def re_sub_ws Let_def)
  with c show ?thesis by simp
qed

subsection \<open>Hallucination check\<close>

lemma entities_loop_eq:
  "entities_loop es query_terms reasons =
     reasons @ map hallucination_reason (filter (\<lambda>e. terms_of e \<inter> query_terms = {}) es)"
  by (induction es arbitrary: reasons) auto

lemma hallucination_lower_case_example:
  "mentioned_entities ''I saw the Eiffel Tower today.'' = [''Eiffel Tower'']
     \<and> check_for_hallucinations ''tell me about the weather'' ''I saw the Eiffel Tower today.''
         = (True, [hallucination_reason ''Eiffel Tower''])"
  by code_simp

text \<open>
  Claim C5, as amended. The phrases extracted from the response are the capitalized
  phrases that follow a lower-case \<open>the\<close>, \<open>a\<close> or \<open>an\<close> (the pattern is matched case
  sensitively); the reasons name, in order, the extracted phrases whose lower-cased
  tokens share no word with the tokens of the query, and the flag is true iff there is
  such a phrase. For the query \<open>tell me about the weather\<close>, the response
  \<open>I saw the Eiffel Tower today.\<close> is flagged with a reason naming \<open>Eiffel Tower\<close>.
\<close>

theorem check_for_hallucinations_flags:
  "snd (check_for_hallucinations query response)
       = map hallucination_reason
           (filter (\<lambda>e. terms_of e \<inter> terms_of query = {}) (mentioned_entities response))
     \<and> fst (check_for_hallucinations query response)
       = (\<exists>e \<in> set (mentioned_entities response). terms_of e \<inter> terms_of query = {})
     \<and> mentioned_entities ''I saw the Eiffel Tower today.'' = [''Eiffel Tower'']
     \<and> check_for_hallucinations ''tell me about the weather'' ''I saw the Eiffel Tower today.''
         = (True, [hallucination_reason ''Eiffel Tower''])"
proof -
  have a: "snd (check_for_hallucinations query response)
       = map hallucination_reason
           (filter (\<lambda>e. terms_of e \<inter> terms_of query = {}) (mentioned_entities response))"
    by (simp add: check_for_hallucinations_def Let_def entities_loop_eq)
  have b: "fst (check_for_hallucinations query response)
       = (\<exists>e \<in> set (mentioned_entities response). terms_of e \<inter> terms_of query = {})"
    by (simp add: check_for_hallucinations_def Let_def entities_loop_eq filter_empty_conv)
  show ?thesis
    apply (intro conjI)
    apply (rule a)
    apply (rule b)
    apply (rule hallucination_lower_case_example [THEN conjunct1])
    apply (rule hallucination_lower_case_example [THEN conjunct2])
    done
qed

subsection \<open>Currency amounts\<close>

lemma replace_from_char_empty:
  "replace_from [c] [] 0 s = filter (\<lambda>x. x \<noteq> c) s"
  by (induction s) auto

lemma normalized_amount_eq:
  "normalized_amount val = take 1 val @ filter (\<lambda>x. x \<noteq> CHR '','') (drop 1 val)"
  by (simp add: normalized_amount_def replace_def replace_from_char_empty)

lemma normalized_amount_unchanged:
  assumes "CHR '','' \<notin> set val"
  shows "normalized_amount val = val"
proof -
  from assms have "CHR '','' \<notin> set (drop 1 val)" by (auto dest: in_set_dropD)
  then have "filter (\<lambda>x. x \<noteq> CHR '','') (drop 1 val) = drop 1 val" by (simp add: filter_id_conv) metis
  then show ?thesis by (simp add: normalized_amount_eq)
qed

text \<open>
  Claim C7, as amended. \<open>normalize_numeric_values\<close> replaces every amount the currency
  pattern matches by its symbol followed by the rest of the match without its commas
  (the decimal portion is kept), and emits exactly one fix record per matched amount,
  whether or not the amount has thousands separators. An amount without separators is
  replaced by itself: the text is unchanged there, and the fix record is still emitted.
\<close>

theorem normalize_numeric_values_records:
  "normalize_numeric_values query
       = (sub_text (\<lambda>m. normalized_amount (whole m)) (re_finditer False currency_pattern query) query,
          map (\<lambda>m. currency_fix (whole m)) (re_finditer False currency_pattern query))
     \<and> normalized_amount val = take 1 val @ filter (\<lambda>x. x \<noteq> CHR '','') (drop 1 val)
     \<and> (CHR '','' \<notin> set val \<longrightarrow> normalized_amount val = val)"
proof -
  have e: "currency_replacer = (\<lambda>m acc. (normalized_amount (whole m), acc @ [currency_fix (whole m)]))"
    by (simp add: fun_eq_iff currency_replacer_def Let_def)
  have "normalize_numeric_values query
       = (sub_text (\<lambda>m. normalized_amount (whole m)) (re_finditer False currency_pattern query) query,
          map (\<lambda>m. currency_fix (whole m)) (re_finditer False currency_pattern query))"
    unfolding normalize_numeric_values_def re_finditer_def e
    using subx_matches [of False currency_pattern "\<lambda>m. normalized_amount (whole m)"
        "\<lambda>m. currency_fix (whole m)" False None query "[]"]
    by simp
  then show ?thesis
    using normalized_amount_eq normalized_amount_unchanged by blast
qed

theorem normalize_numeric_values_records_witness:
  "CHR '','' \<notin> set ''$100''
     \<and> normalized_amount ''$100'' = ''$100''
     \<and> map whole (re_finditer False currency_pattern ''$100'') = [''$100'']
     \<and> normalize_numeric_values ''$100'' = (''$100'', [currency_fix ''$100''])"
proof -
  have a: "CHR '','' \<notin> set ''$100''" by simp
  have m: "map whole (re_finditer False currency_pattern ''$100'') = [''$100'']" by code_simp
  have s: "sub_text (\<lambda>m. normalized_amount (whole m)) (re_finditer False currency_pattern ''$100'') ''$100''
      = ''$100''" by code_simp
  from normalize_numeric_values_records [of "''$100''" "''$100''"]
  have n: "normalize_numeric_values ''$100''
       = (sub_text (\<lambda>m. normalized_amount (whole m)) (re_finditer False currency_pattern ''$100'') ''$100'',
          map (\<lambda>m. currency_fix (whole m)) (re_finditer False currency_pattern ''$100''))"
    and u: "CHR '','' \<notin> set ''$100'' \<longrightarrow> normalized_amount ''$100'' = ''$100''"
    by blast+
  from u a have v: "normalized_amount ''$100'' = ''$100''" by blast
  have f: "map (\<lambda>m. currency_fix (whole m)) (re_finditer False currency_pattern ''$100'')
      = map currency_fix (map whole (re_finditer False currency_pattern ''$100''))" by simp
  have "normalize_numeric_values ''$100'' = (''$100'', [currency_fix ''$100''])"
    unfolding n s f m by simp
  with a v m show ?thesis by blast
qed

subsection \<open>Email correction\<close>

lemma consumed_extends:
  "extends st st' \<Longrightarrow> rest st = consumed st st' @ rest st'"
  by (auto simp: extends_def consumed_def)

lemma rmatch_Lit_consumed:
  assumes "st' \<in> set (rmatch ic (Lit c) st)"
  shows "\<exists>x. rest st = x # rest st' \<and> (if ic then lower_char x = lower_char c else x = c)"
  using assms by (auto dest!: step_char_sound)

lemma rmatch_SeqE:
  assumes "st'' \<in> set (rmatch ic (Seq r1 r2) st)"
  obtains st' where "st' \<in> set (rmatch ic r1 st)" "st'' \<in> set (rmatch ic r2 st')"
  using assms by auto

lemma email_match_has_at:
  assumes "st' \<in> set (rmatch False email_pattern st)"
  shows "CHR ''@'' \<in> set (consumed st st')"
proof -
  obtain A R where p: "email_pattern = Seq WordB (Seq A (Seq (Lit CHR ''@'') R))"
    by (simp add: email_pattern_def cat_def)
  from assms [unfolded p] obtain s1 where s1: "s1 \<in> set (rmatch False WordB st)"
    and t1: "st' \<in> set (rmatch False (Seq A (Seq (Lit CHR ''@'') R)) s1)"
    by (rule rmatch_SeqE)
  from t1 obtain s2 where s2: "s2 \<in> set (rmatch False A s1)"
    and t2: "st' \<in> set (rmatch False (Seq (Lit CHR ''@'') R) s2)"
    by (rule rmatch_SeqE)
  from t2 obtain s3 where s3: "s3 \<in> set (rmatch False (Lit CHR ''@'') s2)"
    and t3: "st' \<in> set (rmatch False R s3)"
    by (rule rmatch_SeqE)
  from t3 have e3: "extends s3 st'" by (rule rmatch_extends)
  from rmatch_extends [OF s1] rmatch_extends [OF s2] have e2: "extends st s2" by (rule extends_trans)
  from rmatch_Lit_consumed [OF s3] have r2: "rest s2 = CHR ''@'' # rest s3" by simp
  from e2 obtain a where a: "rest st = a @ rest s2" by (auto simp: extends_def)
  from e3 obtain b where b: "rest s3 = b @ rest st'" by (auto simp: extends_def)
  from a b r2 have "rest st = (a @ CHR ''@'' # b) @ rest st'" by simp
  then have "consumed st st' = a @ CHR ''@'' # b" by (simp add: consumed_def)
  then show ?thesis by simp
qed

lemma match_here_mem:
  "match_here ic r adv st = Some st' \<Longrightarrow> st' \<in> set (rmatch ic r st)"
  by (auto simp: match_here_def find_Some_iff)

lemma scan_sound:
  "scan ic r adv p s skipped = Some m \<Longrightarrow>
     \<exists>st st'. st' \<in> set (rmatch ic r st) \<and> whole m = consumed st st'"
proof (induction s arbitrary: adv p skipped)
  case Nil
  then obtain st' where "match_here ic r adv \<lparr>prev = p, rest = [], caps = []\<rparr> = Some st'"
    and m: "m = \<lparr>before = skipped, whole = [], groups = caps st', after = st'\<rparr>"
    by (auto split: option.splits)
  from match_here_mem [OF this(1)] match_here_Some [OF this(1)] m show ?case
    by (intro exI [of _ "\<lparr>prev = p, rest = [], caps = []\<rparr>"] exI [of _ st']) auto
next
  case (Cons c cs)
  show ?case
  proof (cases "match_here ic r adv \<lparr>prev = p, rest = c # cs, caps = []\<rparr>")
    case None
    with Cons.prems have "scan ic r False (Some c) cs (skipped @ [c]) = Some m" by simp
    from Cons.IH [OF this] show ?thesis .
  next
    case (Some st')
    with Cons.prems have "whole m = consumed \<lparr>prev = p, rest = c # cs, caps = []\<rparr> st'" by auto
    with match_here_mem [OF Some] show ?thesis by blast
  qed
qed

lemma matches_from_sound:
  "m \<in> set (matches_from ic r adv p s) \<Longrightarrow>
     \<exists>st st'. st' \<in> set (rmatch ic r st) \<and> whole m = consumed st st'"
proof (induction ic r adv p s rule: matches_from.induct)
  case (1 ic r adv p s)
  show ?case
  proof (cases "scan ic r adv p s []")
    case None
    with 1(2) show ?thesis by (simp add: matches_from_None)
  next
    case (Some m0)
    with 1(2) have "m = m0 \<or> m \<in> set (matches_from ic r (whole m0 = []) (prev (after m0)) (rest (after m0)))"
      by (simp add: matches_from_Some)
    then show ?thesis
    proof
      assume "m = m0"
      with scan_sound [OF Some] show ?thesis by simp
    next
      assume "m \<in> set (matches_from ic r (whole m0 = []) (prev (after m0)) (rest (after m0)))"
      from "1.IH" [OF Some this] show ?thesis .
    qed
  qed
qed

lemma findall_email_has_at:
  assumes "e \<in> set (re_findall False email_pattern query)"
  shows "CHR ''@'' \<in> set e"
proof -
  from assms obtain m where "m \<in> set (matches_from False email_pattern False None query)" "e = whole m"
    by (auto simp: re_findall_def re_finditer_def)
  with matches_from_sound email_match_has_at show ?thesis by metis
qed

lemma split_on_nonempty: "split_on sep s \<noteq> []"
  by (induction s) (auto split: list.splits)

lemma split_on_two: "sep \<in> set s \<Longrightarrow> \<exists>a d r. split_on sep s = a # d # r"
proof (induction s)
  case Nil
  then show ?case by simp
next
  case (Cons c cs)
  show ?case
  proof (cases "c = sep")
    case True
    with split_on_nonempty [of sep cs] show ?thesis by (cases "split_on sep cs") auto
  next
    case False
    with Cons obtain a d r where "split_on sep cs = a # d # r" by auto
    with False show ?thesis by simp
  qed
qed

text \<open>The address \<^verbatim>\<open>email.split('@')[1]\<close>, and the corrected address of an email whose
  domain is a key of \<open>common_domains\<close>.\<close>

definition domain_of :: "string \<Rightarrow> string" where
  "domain_of email = split_on CHR ''@'' email ! 1"

definition corrected_email :: "string \<Rightarrow> string option" where
  "corrected_email email =
     (case map_of common_domains (domain_of email) of
        None \<Rightarrow> None
      | Some correct_domain \<Rightarrow> Some (replace email (domain_of email) correct_domain))"

lemma domains_loop_eq:
  "domains_loop common_domains domain email validated_query fs =
     (case map_of common_domains domain of
        None \<Rightarrow> (validated_query, fs)
      | Some correct_domain \<Rightarrow>
          (replace validated_query email (replace email domain correct_domain),
           fs @ [email_fix email (replace email domain correct_domain)]))"
  by (simp add: common_domains_def Let_def)

lemma emails_loop_eq:
  assumes "\<forall>e \<in> set es. CHR ''@'' \<in> set e"
  shows "emails_loop es validated_query fs =
     Inr (foldl (\<lambda>q e. case corrected_email e of None \<Rightarrow> q | Some e' \<Rightarrow> replace q e e') validated_query es,
          fs @ concat (map (\<lambda>e. case corrected_email e of None \<Rightarrow> [] | Some e' \<Rightarrow> [email_fix e e']) es))"
  using assms
proof (induction es arbitrary: validated_query fs)
  case Nil
  show ?case by simp
next
  case (Cons e es)
  from Cons.prems have "CHR ''@'' \<in> set e" by simp
  from split_on_two [OF this] obtain a d r where sp: "split_on CHR ''@'' e = a # d # r" by blast
  then have d: "domain_of e = d" by (simp add: domain_of_def)
  from Cons.prems have rest: "\<forall>e \<in> set es. CHR ''@'' \<in> set e" by simp
  show ?case
    by (cases "map_of common_domains d")
      (simp_all add: sp domains_loop_eq corrected_email_def d Cons.IH [OF rest])
qed

lemma replace_occurrence:
  assumes "old \<noteq> []"
  shows "replace (old @ s) old new = new @ replace s old new"
proof -
  have skip: "replace_from old new (length a) (a @ s) = replace_from old new 0 s" for a
    by (induction a) auto
  from assms obtain c cs where old: "old = c # cs" by (cases old) auto
  have "replace_from old new 0 (old @ s) = new @ replace_from old new (length cs) (cs @ s)"
    by (simp add: old)
  with skip [of cs] assms show ?thesis by (simp add: replace_def)
qed

lemma replace_other:
  assumes "old \<noteq> []" "take (length old) (c # s) \<noteq> old"
  shows "replace (c # s) old new = c # replace s old new"
  using assms by (simp add: replace_def)

text \<open>
  Claim C6, as amended. \<open>validate_email_format\<close> never fails. For each address found in
  the query, in order, whose domain is a known-typo domain, every occurrence of the
  full address in the current text is replaced by the corrected address (the
  replacement is \<^verbatim>\<open>str.replace\<close> without a count: an occurrence at the front is replaced
  and the replacement goes on behind it, any other character is copied and the
  replacement goes on behind it), and one fix record is emitted for each address found.
\<close>

theorem validate_email_format_replaces_all:
  "validate_email_format query =
       Inr (foldl (\<lambda>q e. case corrected_email e of None \<Rightarrow> q | Some e' \<Rightarrow> replace q e e') query
              (re_findall False email_pattern query),
            concat (map (\<lambda>e. case corrected_email e of None \<Rightarrow> [] | Some e' \<Rightarrow> [email_fix e e'])
              (re_findall False email_pattern query)))
     \<and> (old \<noteq> [] \<longrightarrow> replace (old @ s) old new = new @ replace s old new)
     \<and> (old \<noteq> [] \<and> take (length old) (c # s) \<noteq> old \<longrightarrow> replace (c # s) old new = c # replace s old new)"
proof -
  have "\<forall>e \<in> set (re_findall False email_pattern query). CHR ''@'' \<in> set e"
    using findall_email_has_at by blast
  from emails_loop_eq [OF this, of query "[]"] show ?thesis
    using replace_occurrence replace_other by (simp add: validate_email_format_def)
qed

theorem validate_email_format_replaces_all_witness:
  "''a@gmal.com'' \<noteq> []
     \<and> replace (''a@gmal.com'' @ '' and a@gmal.com'') ''a@gmal.com'' ''a@gmail.com''
         = ''a@gmail.com'' @ replace '' and a@gmal.com'' ''a@gmal.com'' ''a@gmail.com''
     \<and> take (length ''a@gmal.com'') (CHR '' '' # ''and a@gmal.com'') \<noteq> ''a@gmal.com''
     \<and> replace (CHR '' '' # ''and a@gmal.com'') ''a@gmal.com'' ''a@gmail.com''
         = CHR '' '' # replace ''and a@gmal.com'' ''a@gmal.com'' ''a@gmail.com''
     \<and> re_findall False email_pattern ''a@gmal.com and a@gmal.com'' = [''a@gmal.com'', ''a@gmal.com'']
     \<and> corrected_email ''a@gmal.com'' = Some ''a@gmail.com''
     \<and> validate_email_format ''a@gmal.com and a@gmal.com''
         = Inr (''a@gmail.com and a@gmail.com'',
                [email_fix ''a@gmal.com'' ''a@gmail.com'', email_fix ''a@gmal.com'' ''a@gmail.com''])"
proof -
  have a: "''a@gmal.com'' \<noteq> []" by simp
  have b: "take (length ''a@gmal.com'') (CHR '' '' # ''and a@gmal.com'') \<noteq> ''a@gmal.com''" by simp
  have f: "re_findall False email_pattern ''a@gmal.com and a@gmal.com'' = [''a@gmal.com'', ''a@gmal.com'']"
    by code_simp
  have c: "corrected_email ''a@gmal.com'' = Some ''a@gmail.com''" by code_simp
  have r: "replace (replace ''a@gmal.com and a@gmal.com'' ''a@gmal.com'' ''a@gmail.com'')
      ''a@gmal.com'' ''a@gmail.com'' = ''a@gmail.com and a@gmail.com''" by code_simp
  note t = validate_email_format_replaces_all
    [of "''a@gmal.com and a@gmal.com''" "''a@gmal.com''" "'' and a@gmal.com''" "''a@gmail.com''"]
  note t2 = validate_email_format_replaces_all
    [of "''a@gmal.com and a@gmal.com''" "''a@gmal.com''" "''and a@gmal.com''" "''a@gmail.com''" "CHR '' ''"]
  from t a have r1: "replace (''a@gmal.com'' @ '' and a@gmal.com'') ''a@gmal.com'' ''a@gmail.com''
         = ''a@gmail.com'' @ replace '' and a@gmal.com'' ''a@gmal.com'' ''a@gmail.com''" by blast
  from t2 a b have r2: "replace (CHR '' '' # ''and a@gmal.com'') ''a@gmal.com'' ''a@gmail.com''
         = CHR '' '' # replace ''and a@gmal.com'' ''a@gmal.com'' ''a@gmail.com''" by blast
  from t have v: "validate_email_format ''a@gmal.com and a@gmal.com'' =
       Inr (foldl (\<lambda>q e. case corrected_email e of None \<Rightarrow> q | Some e' \<Rightarrow> replace q e e')
              ''a@gmal.com and a@gmal.com'' (re_findall False email_pattern ''a@gmal.com and a@gmal.com''),
            concat (map (\<lambda>e. case corrected_email e of None \<Rightarrow> [] | Some e' \<Rightarrow> [email_fix e e'])
              (re_findall False email_pattern ''a@gmal.com and a@gmal.com'')))" by blast
  have v': "validate_email_format ''a@gmal.com and a@gmal.com''
         = Inr (''a@gmail.com and a@gmail.com'',
                [email_fix ''a@gmal.com'' ''a@gmail.com'', email_fix ''a@gmal.com'' ''a@gmail.com''])"
    unfolding v f by (simp add: c r)
  show ?thesis
    apply (intro conjI)
    apply (rule a)
    apply (rule r1)
    apply (rule b)
    apply (rule r2)
    apply (rule f)
    apply (rule c)
    apply (rule v')
    done
qed

subsection \<open>Validation of tool output\<close>








end
